theory Spec2Isabelle
  imports Main "HOL-Library.Word" "HOL-Library.Char_ord" "HOL-Library.List_Lexorder"
begin

unbundle bit_operations_syntax

section \<open>The RGB565 encoder (tools/png\_to\_c.py)\<close>

text \<open>
  Python integers are unbounded: channel values and the packed value are \<open>int\<close>;
  counts, widths and indices are \<open>nat\<close>. Texts are lists of characters.
  An image is what the encoder reads of it: its size and \<open>getpixel\<close> at a
  coordinate pair \<open>(x, y)\<close>, after the conversion to three channels.
\<close>

record image =
  width :: nat
  height :: nat
  getpixel :: "nat \<times> nat \<Rightarrow> int \<times> int \<times> int"

text \<open>Lines 37 to 40: the masks are applied after the shifts, as in the source.\<close>

definition rgb565 :: "int \<times> int \<times> int \<Rightarrow> int" where
  "rgb565 p = (case p of (r, g, b) \<Rightarrow>
     (let r5 = drop_bit 3 r AND 0x1F;
          g6 = drop_bit 2 g AND 0x3F;
          b5 = drop_bit 3 b AND 0x1F
      in push_bit 11 r5 OR push_bit 5 g6 OR b5))"

text \<open>
  The format specification \<open>02x\<close>: lower-case hexadecimal digits of the
  absolute value, a minus sign for a negative number, padded with zeros on the
  left to two characters.
\<close>

definition hex_digit :: "nat \<Rightarrow> char" where
  "hex_digit d = ''0123456789abcdef'' ! d"

fun hex_str :: "nat \<Rightarrow> string" where
  "hex_str n = (if n < 16 then [hex_digit n]
                else hex_str (n div 16) @ [hex_digit (n mod 16)])"

declare hex_str.simps [simp del]

definition fmt_02x :: "int \<Rightarrow> string" where
  "fmt_02x v = (let body = (if v < 0 then ''-'' else []) @ hex_str (nat \<bar>v\<bar>)
                in replicate (2 - length body) (CHR ''0'') @ body)"

text \<open>Decimal formatting of a count, as an f-string does it.\<close>

fun str_nat :: "nat \<Rightarrow> string" where
  "str_nat n = (if n < 10 then [hex_digit n]
                else str_nat (n div 10) @ [hex_digit (n mod 10)])"

declare str_nat.simps [simp del]

text \<open>Lines 41 to 43: the two tokens appended for one pixel, low byte first.\<close>

definition pixel_tokens :: "int \<times> int \<times> int \<Rightarrow> string list" where
  "pixel_tokens p = (let v = rgb565 p
     in [''0x'' @ fmt_02x (v AND 0xFF), ''0x'' @ fmt_02x (drop_bit 8 v AND 0xFF)])"

text \<open>Lines 32 to 43: the nested loops, rows outermost, appending to \<open>pixel_data\<close>.\<close>

definition pixel_data :: "image \<Rightarrow> string list" where
  "pixel_data img =
     concat (map (\<lambda>y. concat (map (\<lambda>x. pixel_tokens (getpixel img (x, y)))
                                   [0..<width img]))
                 [0..<height img])"

text \<open>The packed pixel stream: the bytes the tokens stand for, in the same order.\<close>

definition pixel_bytes :: "int \<times> int \<times> int \<Rightarrow> int list" where
  "pixel_bytes p = (let v = rgb565 p in [v AND 0xFF, drop_bit 8 v AND 0xFF])"

definition packed_stream :: "image \<Rightarrow> int list" where
  "packed_stream img =
     concat (map (\<lambda>y. concat (map (\<lambda>x. pixel_bytes (getpixel img (x, y)))
                                   [0..<width img]))
                 [0..<height img])"

text \<open>\<open>sep.join(xs)\<close>\<close>

fun join :: "string \<Rightarrow> string list \<Rightarrow> string" where
  "join sep [] = []"
| "join sep [x] = x"
| "join sep (x # y # ys) = x @ sep @ join sep (y # ys)"

text \<open>
  Lines 46 to 52: the loop over \<open>range(0, len(pixel_data), 16)\<close>, from index
  \<open>i\<close> on; each element of the result is what one iteration writes.
\<close>

function rows_from :: "nat \<Rightarrow> string list \<Rightarrow> string list" where
  "rows_from i pd =
     (if i < length pd
      then (''  '' @ join '', '' (take 16 (drop i pd))
              @ (if i + 16 < length pd then '',\<newline>'' else ''\<newline>''))
           # rows_from (i + 16) pd
      else [])"
  by pat_completeness auto
termination
  by (relation "measure (\<lambda>(i, pd). length pd - i)") auto

declare rows_from.simps [simp del]

text \<open>Lines 57 to 64: the descriptor, one element for each write.\<close>

definition descriptor :: "image \<Rightarrow> string \<Rightarrow> string list" where
  "descriptor img var_name =
     [''const lv_img_dsc_t '' @ var_name @ '' = {\<newline>'',
      ''  .header.always_zero = 0,\<newline>'',
      ''  .header.w = '' @ str_nat (width img) @ '',\<newline>'',
      ''  .header.h = '' @ str_nat (height img) @ '',\<newline>'',
      ''  .data_size = '' @ str_nat (length (pixel_data img)) @ '',\<newline>'',
      ''  .header.cf = LV_IMG_CF_TRUE_COLOR,\<newline>'',
      ''  .data = '' @ var_name @ ''_map,\<newline>'',
      ''};\<newline>'']"

text \<open>Lines 24 to 30: the writes before the pixel loop.\<close>

definition preamble :: "string \<Rightarrow> string list" where
  \<open>preamble var_name =
     [''#include "lvgl.h"\<newline>\<newline>'',
      ''#ifndef LV_ATTRIBUTE_MEM_ALIGN\<newline>'',
      ''#define LV_ATTRIBUTE_MEM_ALIGN\<newline>'',
      ''#endif\<newline>\<newline>'',
      ''const LV_ATTRIBUTE_MEM_ALIGN uint8_t '' @ var_name @ ''_map[] = {\<newline>'']\<close>

text \<open>The text of the output file: all writes of \<open>convert_png_to_c\<close>, in order.\<close>

definition convert_png_to_c :: "image \<Rightarrow> string \<Rightarrow> string" where
  "convert_png_to_c img var_name =
     concat (preamble var_name) @ concat (rows_from 0 (pixel_data img))
       @ ''};\<newline>\<newline>'' @ concat (descriptor img var_name)"


section \<open>The byte-array extractor (tools/c\_to\_bin.py)\<close>

subsection \<open>The regular expressions of the \<open>re\<close> module that the extractor uses\<close>

text \<open>
  A text is a list of characters, each a code point below 256; texts with other code
  points are outside this model. The classes \<open>\s\<close> and \<open>\w\<close> of a \<open>str\<close>
  pattern are Unicode whitespace and Unicode alphanumerics with the underscore,
  here restricted to those code points.
\<close>

definition is_space :: "char \<Rightarrow> bool" where
  "is_space c = (let n = (of_char c :: nat)
     in (9 \<le> n \<and> n \<le> 13) \<or> (28 \<le> n \<and> n \<le> 32) \<or> n = 133 \<or> n = 160)"

definition is_word :: "char \<Rightarrow> bool" where
  "is_word c = (let n = (of_char c :: nat)
     in (48 \<le> n \<and> n \<le> 57) \<or> (65 \<le> n \<and> n \<le> 90) \<or> n = 95 \<or> (97 \<le> n \<and> n \<le> 122)
        \<or> n = 170 \<or> n = 178 \<or> n = 179 \<or> n = 181 \<or> n = 185 \<or> n = 186
        \<or> (188 \<le> n \<and> n \<le> 190) \<or> (192 \<le> n \<and> n \<le> 214) \<or> (216 \<le> n \<and> n \<le> 246)
        \<or> 248 \<le> n)"

definition is_hex :: "char \<Rightarrow> bool" where
  "is_hex c = (let n = (of_char c :: nat)
     in (48 \<le> n \<and> n \<le> 57) \<or> (65 \<le> n \<and> n \<le> 70) \<or> (97 \<le> n \<and> n \<le> 102))"

datatype cls = Space | Word | NotRBrace | HexDigit

fun in_cls :: "cls \<Rightarrow> char \<Rightarrow> bool" where
  "in_cls Space c = is_space c"
| "in_cls Word c = is_word c"
| "in_cls NotRBrace c = (c \<noteq> CHR ''}'')"
| "in_cls HexDigit c = is_hex c"

text \<open>
  The fragment of the pattern language that occurs in the source: literal text, one
  character of a class, the greedy repetitions \<open>+\<close> and \<open>*\<close> of a class, the greedy
  option \<open>(?:r)?\<close>, alternation, sequence, and the capturing group (each pattern of
  the source has exactly one).
\<close>

datatype rx =
    Lit string
  | One cls
  | Plus cls
  | Star cls
  | Opt rx
  | Alt rx rx
  | Seq rx rx
  | Grp rx

text \<open>
  The backtracking matcher, as the list of its successes in the order in which
  backtracking reaches them: each success is the text captured by the group, if the
  group took part, and the text after the match. A greedy repetition offers the
  longest run first; an option offers its body first; an alternation its left branch.
\<close>

fun rmatch :: "rx \<Rightarrow> string \<Rightarrow> (string option \<times> string) list" where
  "rmatch (Lit l) s = (if take (length l) s = l then [(None, drop (length l) s)] else [])"
| "rmatch (One c) s = (case s of [] \<Rightarrow> [] | x # t \<Rightarrow> if in_cls c x then [(None, t)] else [])"
| "rmatch (Plus c) s =
     map (\<lambda>k. (None, drop k s)) (rev [1..<Suc (length (takeWhile (in_cls c) s))])"
| "rmatch (Star c) s =
     map (\<lambda>k. (None, drop k s)) (rev [0..<Suc (length (takeWhile (in_cls c) s))])"
| "rmatch (Opt r) s = rmatch r s @ [(None, s)]"
| "rmatch (Alt a b) s = rmatch a s @ rmatch b s"
| "rmatch (Seq a b) s =
     concat (map (\<lambda>(g, t). map (\<lambda>(h, u). (case h of None \<Rightarrow> g | Some x \<Rightarrow> Some x, u))
                                  (rmatch b t))
                 (rmatch a s))"
| "rmatch (Grp r) s =
     map (\<lambda>(g, t). (Some (take (length s - length t) s), t)) (rmatch r s)"

text \<open>\<open>re.search\<close>: the first success at the leftmost position that has one.\<close>

fun search :: "rx \<Rightarrow> string \<Rightarrow> (string option \<times> string) option" where
  "search r [] = (case rmatch r [] of [] \<Rightarrow> None | m # _ \<Rightarrow> Some m)"
| "search r (c # s) = (case rmatch r (c # s) of [] \<Rightarrow> search r s | m # _ \<Rightarrow> Some m)"

text \<open>
  \<open>re.findall\<close> for a pattern with one group: the group of each match, scanning from
  left to right and resuming where the previous match ended. After a match of the
  empty string the scan moves on by one character.
\<close>

function findall :: "rx \<Rightarrow> string \<Rightarrow> string list" where
  "findall r s =
     (case rmatch r s of
        [] \<Rightarrow> (case s of [] \<Rightarrow> [] | _ # s' \<Rightarrow> findall r s')
      | (g, t) # _ \<Rightarrow>
          (case g of None \<Rightarrow> [] | Some x \<Rightarrow> x)
          # (if length t < length s then findall r t
             else (case s of [] \<Rightarrow> [] | _ # s' \<Rightarrow> findall r s')))"
  by pat_completeness auto
termination
  by (relation "measure (\<lambda>(r, s). length s)") auto

declare findall.simps [simp del]

definition seqs :: "rx list \<Rightarrow> rx" where
  "seqs rs = foldr Seq rs (Lit [])"

subsection \<open>\<open>parse_c_array\<close>\<close>

text \<open>Line 22: the pattern with the \<open>_map\<close> suffix.\<close>

definition array_pattern1 :: rx where
  "array_pattern1 = seqs
     [Lit ''static'', Plus Space, Lit ''const'', Plus Space,
      Opt (Seq (Lit ''LV_ATTRIBUTE_MEM_ALIGN'') (Plus Space)),
      Lit ''uint'', Alt (Lit ''8'') (Lit ''16''), Lit ''_t'', Plus Space,
      Plus Word, Lit ''_map'', Lit ''[]'', Star Space, Lit ''='', Star Space,
      Lit ''{'', Grp (Plus NotRBrace), Lit ''}'']"

text \<open>Line 27: the pattern for any identifier.\<close>

definition array_pattern2 :: rx where
  "array_pattern2 = seqs
     [Lit ''static'', Plus Space, Lit ''const'', Plus Space,
      Opt (Seq (Lit ''LV_ATTRIBUTE_MEM_ALIGN'') (Plus Space)),
      Lit ''uint'', Alt (Lit ''8'') (Lit ''16''), Lit ''_t'', Plus Space,
      Plus Word, Lit ''[]'', Star Space, Lit ''='', Star Space,
      Lit ''{'', Grp (Plus NotRBrace), Lit ''}'']"

text \<open>Line 37: \<open>0x([0-9a-fA-F]{2})\<close>.\<close>

definition hex_pattern :: rx where
  "hex_pattern = Seq (Lit ''0x'') (Grp (Seq (One HexDigit) (One HexDigit)))"

text \<open>\<open>int(val, 16)\<close> on a string of hexadecimal digits.\<close>

definition hex_val :: "char \<Rightarrow> int" where
  "hex_val c = (let n = (of_char c :: int)
     in if n \<le> 57 then n - 48 else if n \<le> 70 then n - 55 else n - 87)"

definition int16 :: "string \<Rightarrow> int" where
  "int16 val = foldl (\<lambda>a c. 16 * a + hex_val c) 0 val"

text \<open>
  The failures of the extractor: the two \<open>ValueError\<close>s of lines 31 and 40 with the
  path they name, and the exceptions of the run-time system (a file that cannot be
  opened or written, the \<open>TypeError\<close> of scanning a group that took no part).
\<close>

datatype error =
    NoArray string
  | NoHex string
  | OSError string
  | TypeError

datatype c_source = Text string | Unreadable

definition hex_values :: "string \<Rightarrow> string list" where
  "hex_values array_str = findall hex_pattern array_str"

definition find_array :: "string \<Rightarrow> (string option \<times> string) option" where
  "find_array content =
     (case search array_pattern1 content of
        Some m \<Rightarrow> Some m
      | None \<Rightarrow> search array_pattern2 content)"

definition parse_text :: "string \<Rightarrow> string \<Rightarrow> error + int list" where
  "parse_text c_file_path content =
     (case find_array content of
        None \<Rightarrow> Inl (NoArray c_file_path)
      | Some (None, _) \<Rightarrow> Inl TypeError
      | Some (Some array_str, _) \<Rightarrow>
          (if hex_values array_str = [] then Inl (NoHex c_file_path)
           else Inr (map int16 (hex_values array_str))))"

definition parse_c_array :: "(string \<rightharpoonup> c_source) \<Rightarrow> string \<Rightarrow> error + int list" where
  "parse_c_array fs c_file_path =
     (case fs c_file_path of
        None \<Rightarrow> Inl (OSError c_file_path)
      | Some Unreadable \<Rightarrow> Inl (OSError c_file_path)
      | Some (Text content) \<Rightarrow> parse_text c_file_path content)"


subsection \<open>\<open>convert_c_to_bin\<close> and \<open>main\<close>\<close>

text \<open>
  What the run leaves behind: the binary files written and the lines printed, each
  line by its kind and the values it shows. The source files are only read. Whether
  the output directory can be created and a file written there is a property of the
  environment.
\<close>

datatype msg =
    Extracted nat string
  | FileNotFound string
  | Created string nat
  | Failed string error
  | Banner string
  | NoFrames
  | Found "string list"
  | Complete nat nat
  | NextSteps string

record world =
  sources :: "string \<rightharpoonup> c_source"
  can_write :: "string \<Rightarrow> bool"
  bins :: "string \<rightharpoonup> int list"
  console :: "msg list"

definition say :: "msg \<Rightarrow> world \<Rightarrow> world" where
  "say m w = w\<lparr>console := console w @ [m]\<rparr>"

text \<open>The final component of a path and its stem (the name without its last suffix).\<close>

definition path_name :: "string \<Rightarrow> string" where
  "path_name p = rev (takeWhile (\<lambda>c. c \<noteq> CHR ''/'') (rev p))"

definition stem :: "string \<Rightarrow> string" where
  "stem p = (let name = path_name p;
                 suffix = rev (takeWhile (\<lambda>c. c \<noteq> CHR ''.'') (rev name))
             in if CHR ''.'' \<in> set name \<and> suffix \<noteq> [] \<and> Suc (length suffix) < length name
                then take (length name - Suc (length suffix)) name
                else name)"

definition bin_path :: "string \<Rightarrow> string \<Rightarrow> string" where
  "bin_path output_dir c_file_path = output_dir @ ''/'' @ stem c_file_path @ ''.bin''"

text \<open>
  Lines 48 to 78. The line that \<open>parse_c_array\<close> prints on success (line 45) is
  added here, where the world is at hand.
\<close>

definition convert_c_to_bin :: "world \<Rightarrow> string \<Rightarrow> string \<Rightarrow> bool \<times> world" where
  "convert_c_to_bin w c_file_path output_dir =
     (if sources w c_file_path = None then (False, say (FileNotFound c_file_path) w)
      else (case parse_c_array (sources w) c_file_path of
              Inl e \<Rightarrow> (False, say (Failed c_file_path e) w)
            | Inr data \<Rightarrow>
                (let w1 = say (Extracted (length data) c_file_path) w;
                     bp = bin_path output_dir c_file_path
                 in if can_write w1 bp
                    then (True, say (Created bp (length data))
                                  (w1\<lparr>bins := (bins w1)(bp \<mapsto> data)\<rparr>))
                    else (False, say (Failed c_file_path (OSError bp)) w1))))"

text \<open>Lines 117 to 120: the loop over the discovered files.\<close>

fun batch :: "string \<Rightarrow> string list \<Rightarrow> nat \<times> world \<Rightarrow> nat \<times> world" where
  "batch output_dir [] (success_count, w) = (success_count, w)"
| "batch output_dir (c_file # c_files) (success_count, w) =
     (case convert_c_to_bin w c_file output_dir of
        (ok, w') \<Rightarrow> batch output_dir c_files
                      (if ok then success_count + 1 else success_count, w'))"




section \<open>Notions used in the statements and proofs\<close>


text \<open>
  An automaton for texts in which a \<open>c\<close> is followed by a non-empty run of whitespace
  and another \<open>c\<close>, as in \<open>static const\<close>: state 1 after a \<open>c\<close>, state 2 after
  whitespace behind it, state 3 once the second \<open>c\<close> has come.
\<close>

fun cstep :: "nat \<Rightarrow> char \<Rightarrow> nat" where
  "cstep q x =
     (if q = 3 then 3
      else if x = CHR ''c'' then (if q = 2 then 3 else 1)
      else if is_space x then (if q = 0 then 0 else 2)
      else 0)"

definition cscan :: "nat \<Rightarrow> string \<Rightarrow> nat" where
  "cscan q s = foldl cstep q s"

text \<open>
  The occurrences of the token pattern in a text, by position: \<open>0x\<close> and two
  hexadecimal digits start at index \<open>i\<close>.
\<close>

definition occ_at :: "string \<Rightarrow> nat \<Rightarrow> bool" where
  "occ_at s i = (i + 4 \<le> length s \<and> s ! i = CHR ''0'' \<and> s ! (i + 1) = CHR ''x''
                  \<and> is_hex (s ! (i + 2)) \<and> is_hex (s ! (i + 3)))"

definition occurrences :: "string \<Rightarrow> nat list" where
  "occurrences s = filter (occ_at s) [0..<length s]"

definition byte_at :: "string \<Rightarrow> nat \<Rightarrow> int" where
  "byte_at s i = int16 [s ! (i + 2), s ! (i + 3)]"

text \<open>
  Of a list of positions in increasing order, those that a scan takes which resumes
  four characters after each position taken: a position before \<open>lo\<close> is skipped.
\<close>

fun taken :: "nat \<Rightarrow> nat list \<Rightarrow> nat list" where
  "taken lo [] = []"
| "taken lo (i # js) = (if lo \<le> i then i # taken (i + 4) js else taken lo js)"

text \<open>Whether converting one file succeeds, which the state of the run does not change.\<close>

definition converts :: "world \<Rightarrow> string \<Rightarrow> string \<Rightarrow> bool" where
  "converts w output_dir c_file = fst (convert_c_to_bin w c_file output_dir)"


text \<open>The token of one byte, and the images of the worked examples.\<close>

definition token :: "int \<Rightarrow> string" where
  "token b = ''0x'' @ [hex_digit (nat b div 16), hex_digit (nat b mod 16)]"

definition red_green :: image where
  "red_green = \<lparr>width = 2, height = 1,
                 getpixel = (\<lambda>(x, y). if x = 0 then (255, 0, 0) else (0, 255, 0))\<rparr>"

definition red_8x2 :: image where
  "red_8x2 = \<lparr>width = 8, height = 2, getpixel = (\<lambda>(x, y). (255, 0, 0))\<rparr>"






section \<open>Properties of the encoder\<close>

subsection \<open>Packing\<close>

lemma drop3_mask5: "0 \<le> r \<Longrightarrow> r < 256 \<Longrightarrow> drop_bit 3 (r::int) AND 0x1F = drop_bit 3 r"
proof -
  assume a: "0 \<le> r" "r < 256"
  have "drop_bit 3 r AND 31 = take_bit 5 (drop_bit 3 r)"
    by (simp add: take_bit_eq_mask mask_eq_exp_minus_1)
  also have "\<dots> = drop_bit 3 r"
    using a by (intro take_bit_int_eq_self) (simp_all add: drop_bit_eq_div)
  finally show ?thesis by simp
qed

lemma drop2_mask6: "0 \<le> g \<Longrightarrow> g < 256 \<Longrightarrow> drop_bit 2 (g::int) AND 0x3F = drop_bit 2 g"
proof -
  assume a: "0 \<le> g" "g < 256"
  have "drop_bit 2 g AND 63 = take_bit 6 (drop_bit 2 g)"
    by (simp add: take_bit_eq_mask mask_eq_exp_minus_1)
  also have "\<dots> = drop_bit 2 g"
    using a by (intro take_bit_int_eq_self) (simp_all add: drop_bit_eq_div)
  finally show ?thesis by simp
qed

text \<open>
  C2. For a pixel with 8-bit channels \<open>r\<close>, \<open>g\<close>, \<open>b\<close> the packed value is
  \<open>((r >> 3) << 11) | ((g >> 2) << 5) | (b >> 3)\<close>: the channels are reduced by
  right shifts, which truncate, and red is packed most significant. On such
  channels the masks of the source change nothing.
\<close>

theorem rgb565_formula:
  "0 \<le> r \<Longrightarrow> r < 256 \<Longrightarrow> 0 \<le> g \<Longrightarrow> g < 256 \<Longrightarrow> 0 \<le> b \<Longrightarrow> b < 256 \<Longrightarrow>
   rgb565 (r, g, b) = push_bit 11 (drop_bit 3 r) OR push_bit 5 (drop_bit 2 g) OR drop_bit 3 b"
  by (simp add: rgb565_def drop3_mask5 drop2_mask6 del: push_bit_and)

theorem rgb565_formula_witness:
  "(0::int) \<le> 200 \<and> (200::int) < 256 \<and> (0::int) \<le> 100 \<and> (100::int) < 256
   \<and> (0::int) \<le> 7 \<and> (7::int) < 256
   \<and> rgb565 (200, 100, 7) = push_bit 11 (drop_bit 3 200) OR push_bit 5 (drop_bit 2 100) OR drop_bit 3 7
   \<and> rgb565 (200, 100, 7) = 0xCB20"
  using rgb565_formula [of 200 100 7] by (simp add: rgb565_def)

text \<open>
  C9. Re-encoding is stable: take the 5-bit red, 6-bit green and 5-bit blue fields
  of any 16-bit value, widen each to 8 bits by a left shift (3, 2 and 3 places),
  and pack them again with the encoder's formula; the result is the same 16-bit
  value.
\<close>

theorem rgb565_reencode:
  fixes v :: "16 word"
  shows "rgb565 (push_bit 3 (uint (drop_bit 11 v AND 0x1F)),
                 push_bit 2 (uint (drop_bit 5 v AND 0x3F)),
                 push_bit 3 (uint (v AND 0x1F))) = uint v"
proof -
  have e: "(31::int) = mask 5" "(63::int) = mask 6"
          "(31::16 word) = mask 5" "(63::16 word) = mask 6"
    by (simp_all add: mask_eq_exp_minus_1)
  have "push_bit 11 (uint (drop_bit 11 v AND mask 5) AND mask 5)
        OR push_bit 5 (uint (drop_bit 5 v AND mask 6) AND mask 6)
        OR (uint (v AND mask 5) AND mask 5) = uint v"
  proof (rule bit_eqI)
    fix n
    have "bit v n \<Longrightarrow> n < 16" using bit_imp_le_length [of v n] by simp
    then show "bit (push_bit 11 (uint (drop_bit 11 v AND mask 5) AND mask 5)
        OR push_bit 5 (uint (drop_bit 5 v AND mask 6) AND mask 6)
        OR (uint (v AND mask 5) AND mask 5)) n = bit (uint v) n"
      by (cases "11 \<le> n") (auto simp add: bit_simps)
  qed
  then show ?thesis
    by (simp add: rgb565_def e drop_bit_push_bit del: push_bit_and)
qed

subsection \<open>Tokens and their order\<close>

lemma and_255_range: "0 \<le> (v::int) AND 255" "(v::int) AND 255 < 256"
proof -
  show "0 \<le> v AND 255" by simp
  have "v AND 255 \<le> 255" by (rule AND_upper2) simp
  then show "v AND 255 < 256" by simp
qed

lemma fmt_02x_byte:
  assumes "0 \<le> v" "v < 256"
  shows "fmt_02x v = [hex_digit (nat v div 16), hex_digit (nat v mod 16)]"
proof (cases "nat v < 16")
  case True
  then have "hex_str (nat v) = [hex_digit (nat v)]" by (simp add: hex_str.simps)
  moreover have "hex_digit 0 = CHR ''0''" by (simp add: hex_digit_def)
  ultimately show ?thesis using True assms by (simp add: fmt_02x_def)
next
  case False
  have "nat v div 16 < 16" using assms by auto
  then have "hex_str (nat v) = [hex_digit (nat v div 16), hex_digit (nat v mod 16)]"
    using False by (simp add: hex_str.simps [of "nat v"] hex_str.simps [of "nat v div 16"])
  then show ?thesis using assms by (simp add: fmt_02x_def)
qed

lemma pixel_tokens_bytes: "pixel_tokens p = map token (pixel_bytes p)"
  by (simp add: pixel_tokens_def pixel_bytes_def Let_def fmt_02x_byte and_255_range token_def)

lemma pixel_data_stream: "pixel_data img = map token (packed_stream img)"
  by (simp add: pixel_data_def packed_stream_def pixel_tokens_bytes map_concat comp_def)

lemma row_major:
  "concat (map (\<lambda>y. concat (map (\<lambda>x. f (x, y)) [0..<w])) [0..<h])
   = concat (map (\<lambda>i. f (i mod w, i div w)) [0..<h * w])"
proof (induction h)
  case 0
  then show ?case by simp
next
  case (Suc h)
  have "[0..<h * w + w] = [0..<h * w] @ [h * w..<h * w + w]"
    by (rule upt_add_eq_append) simp
  then have "[0..<Suc h * w] = [0..<h * w] @ map (\<lambda>i. i + h * w) [0..<w]"
    by (simp add: map_add_upt add.commute)
  moreover have "map (\<lambda>i. f (i mod w, i div w)) (map (\<lambda>i. i + h * w) [0..<w])
        = map (\<lambda>x. f (x, h)) [0..<w]"
    by (simp add: comp_def)
  ultimately show ?case using Suc by (simp del: map_map)
qed

text \<open>
  C3. Every pixel contributes two tokens, the low byte of its packed value first and
  the high byte second, each as \<open>0x\<close> and two lower-case hexadecimal digits, and the
  pixels come in row-major order. The pixel packed as \<open>0xABCD\<close> gives \<open>0xcd\<close> and
  then \<open>0xab\<close>; the 2 by 1 image with a red and a green pixel gives
  \<open>0x00, 0xf8, 0xe0, 0x07\<close>.
\<close>

theorem low_byte_first:
  "pixel_tokens p = [''0x'' @ fmt_02x (rgb565 p AND 0xFF),
                     ''0x'' @ fmt_02x (drop_bit 8 (rgb565 p) AND 0xFF)]
   \<and> fmt_02x (rgb565 p AND 0xFF)
       = [hex_digit (nat (rgb565 p AND 0xFF) div 16), hex_digit (nat (rgb565 p AND 0xFF) mod 16)]
   \<and> fmt_02x (drop_bit 8 (rgb565 p) AND 0xFF)
       = [hex_digit (nat (drop_bit 8 (rgb565 p) AND 0xFF) div 16),
          hex_digit (nat (drop_bit 8 (rgb565 p) AND 0xFF) mod 16)]
   \<and> pixel_data img
       = concat (map (\<lambda>i. pixel_tokens (getpixel img (i mod width img, i div width img)))
                     [0..<height img * width img])
   \<and> rgb565 (168, 120, 104) = 0xABCD
   \<and> pixel_tokens (168, 120, 104) = [''0xcd'', ''0xab'']
   \<and> pixel_data red_green = [''0x00'', ''0xf8'', ''0xe0'', ''0x07'']"
proof -
  have a: "pixel_data img
       = concat (map (\<lambda>i. pixel_tokens (getpixel img (i mod width img, i div width img)))
                     [0..<height img * width img])"
    unfolding pixel_data_def
    by (rule row_major [of "\<lambda>c. pixel_tokens (getpixel img c)" "width img" "height img"])
  have b: "rgb565 (168, 120, 104) = 0xABCD" by (simp add: rgb565_def)
  have c: "pixel_tokens (168, 120, 104) = [''0xcd'', ''0xab'']" by code_simp
  have d: "pixel_data red_green = [''0x00'', ''0xf8'', ''0xe0'', ''0x07'']" by code_simp
  have t: "pixel_tokens p = [''0x'' @ fmt_02x (rgb565 p AND 0xFF),
                     ''0x'' @ fmt_02x (drop_bit 8 (rgb565 p) AND 0xFF)]"
    by (simp add: pixel_tokens_def Let_def)
  have lo: "fmt_02x (rgb565 p AND 0xFF)
       = [hex_digit (nat (rgb565 p AND 0xFF) div 16), hex_digit (nat (rgb565 p AND 0xFF) mod 16)]"
    by (rule fmt_02x_byte) (simp_all add: and_255_range)
  have hi: "fmt_02x (drop_bit 8 (rgb565 p) AND 0xFF)
       = [hex_digit (nat (drop_bit 8 (rgb565 p) AND 0xFF) div 16),
          hex_digit (nat (drop_bit 8 (rgb565 p) AND 0xFF) mod 16)]"
    by (rule fmt_02x_byte) (simp_all add: and_255_range)
  from t lo hi a b c d show ?thesis by (intro conjI)
qed

subsection \<open>Counts and lines\<close>

lemma length_concat_const:
  "(\<And>x. x \<in> set xs \<Longrightarrow> length (f x) = c) \<Longrightarrow> length (concat (map f xs)) = c * length xs"
  by (induction xs) auto

lemma length_packed_stream: "length (packed_stream img) = 2 * width img * height img"
proof -
  have "length (concat (map (\<lambda>x. pixel_bytes (getpixel img (x, y))) [0..<width img]))
        = 2 * width img" for y
    using length_concat_const [of "[0..<width img]" "\<lambda>x. pixel_bytes (getpixel img (x, y))" 2]
    by (simp add: pixel_bytes_def Let_def)
  then show ?thesis
    using length_concat_const [of "[0..<height img]"
       "\<lambda>y. concat (map (\<lambda>x. pixel_bytes (getpixel img (x, y))) [0..<width img])" "2 * width img"]
    by (simp add: packed_stream_def)
qed

lemma length_pixel_data: "length (pixel_data img) = 2 * width img * height img"
  by (simp add: pixel_data_stream length_packed_stream)

text \<open>
  C4. For an image of width \<open>W\<close> and height \<open>H\<close> the encoder emits \<open>2 * W * H\<close>
  tokens, and the \<open>data_size\<close> line of the descriptor shows that number.
\<close>

theorem token_count:
  "length (pixel_data img) = 2 * width img * height img
   \<and> descriptor img var_name ! 4
       = ''  .data_size = '' @ str_nat (2 * width img * height img) @ '',\<newline>''"
  by (simp add: length_pixel_data descriptor_def)

lemma div16_step: "0 < (m::nat) \<Longrightarrow> Suc ((m - 16 + 15) div 16) = (m + 15) div 16"
proof (cases "16 \<le> m")
  case True
  then obtain k where "m = k + 16" using le_Suc_ex [of 16 m] by (auto simp: add.commute)
  then show ?thesis by simp
next
  case False
  assume "0 < m"
  then have "(m + 15) div 16 = 1" using False by simp
  then show ?thesis using False by simp
qed

lemma rows_from_length: "length (rows_from i pd) = (length pd - i + 15) div 16"
proof (induction i pd rule: rows_from.induct)
  case (1 i pd)
  show ?case
  proof (cases "i < length pd")
    case True
    have "length (rows_from i pd) = Suc (length (rows_from (i + 16) pd))"
      using True by (subst rows_from.simps) simp
    also have "\<dots> = Suc ((length pd - i - 16 + 15) div 16)"
      using 1 [OF True] by (simp add: diff_diff_left)
    also have "\<dots> = (length pd - i + 15) div 16"
      using True by (intro div16_step) simp
    finally show ?thesis .
  next
    case False
    then show ?thesis by (subst rows_from.simps) simp
  qed
qed

lemma rows_from_nth:
  "k < length (rows_from i pd) \<Longrightarrow>
   rows_from i pd ! k = ''  '' @ join '', '' (take 16 (drop (i + 16 * k) pd))
      @ (if i + 16 * k + 16 < length pd then '',\<newline>'' else ''\<newline>'')"
proof (induction i pd arbitrary: k rule: rows_from.induct)
  case (1 i pd)
  show ?case
  proof (cases "i < length pd")
    case True
    show ?thesis
    proof (cases k)
      case 0
      then show ?thesis using True by (simp add: rows_from.simps [of i pd])
    next
      case (Suc j)
      then have "j < length (rows_from (i + 16) pd)"
        using 1(2) True by (simp add: rows_from.simps [of i pd])
      from 1(1) [OF True this] show ?thesis
        using True Suc by (simp add: rows_from.simps [of i pd] add.assoc add.commute)
    qed
  next
    case False
    then show ?thesis using 1(2) by (simp add: rows_from.simps [of i pd])
  qed
qed

lemma concat_chunks:
  "concat (map (\<lambda>k. take 16 (drop (16 * k) pd)) [0..<m]) = take (16 * m) pd"
proof (induction m)
  case 0
  then show ?case by simp
next
  case (Suc m)
  have "take (16 * m) pd @ take 16 (drop (16 * m) pd) = take (16 * m + 16) pd"
    by (simp add: take_add)
  then show ?case using Suc by (simp add: add.commute)
qed

text \<open>
  C8. The tokens are written in lines of 16: line \<open>k\<close> is two blanks and the tokens
  \<open>16 * k\<close> up to \<open>16 * k + 15\<close> joined by a comma and a blank; every line but the
  last has exactly 16 tokens and ends in a comma before the newline; the last line
  has the tokens that remain, at least one and at most 16 (so 16 of them when the
  count is a multiple of 16), and ends in the newline alone. The lines hold all
  tokens, in order.
\<close>

theorem lines_of_16:
  fixes img :: image
  defines "pd \<equiv> pixel_data img"
  defines "rows \<equiv> rows_from 0 pd"
  defines "row \<equiv> \<lambda>k. take 16 (drop (16 * k) pd)"
  shows "length rows = (length pd + 15) div 16
       \<and> concat (map row [0..<length rows]) = pd
       \<and> (\<forall>k < length rows.
             rows ! k = ''  '' @ join '', '' (row k)
                          @ (if k + 1 < length rows then '',\<newline>'' else ''\<newline>'')
           \<and> (k + 1 < length rows \<longrightarrow> length (row k) = 16)
           \<and> (k + 1 = length rows \<longrightarrow> length (row k) = length pd - 16 * k
                                      \<and> 0 < length (row k) \<and> length (row k) \<le> 16))"
proof -
  have len: "length rows = (length pd + 15) div 16"
    by (simp add: rows_def rows_from_length)
  have "16 * length rows \<ge> length pd" using len by arith
  then have cc: "concat (map row [0..<length rows]) = pd"
    by (simp add: row_def concat_chunks)
  have "rows ! k = ''  '' @ join '', '' (row k)
                          @ (if k + 1 < length rows then '',\<newline>'' else ''\<newline>'')
           \<and> (k + 1 < length rows \<longrightarrow> length (row k) = 16)
           \<and> (k + 1 = length rows \<longrightarrow> length (row k) = length pd - 16 * k
                                      \<and> 0 < length (row k) \<and> length (row k) \<le> 16)"
    if k: "k < length rows" for k
  proof -
    have iff: "(k + 1 < length rows) = (16 * k + 16 < length pd)"
      using len by arith
    have "rows ! k = ''  '' @ join '', '' (row k)
                          @ (if 16 * k + 16 < length pd then '',\<newline>'' else ''\<newline>'')"
      using rows_from_nth [of k 0 pd] k by (simp add: rows_def row_def)
    then have a: "rows ! k = ''  '' @ join '', '' (row k)
                          @ (if k + 1 < length rows then '',\<newline>'' else ''\<newline>'')"
      using iff by simp
    have l: "length (row k) = min 16 (length pd - 16 * k)"
      by (simp add: row_def min.commute)
    have b: "k + 1 < length rows \<longrightarrow> length (row k) = 16"
      using l len k by arith
    have c: "k + 1 = length rows \<longrightarrow> length (row k) = length pd - 16 * k
                                      \<and> 0 < length (row k) \<and> length (row k) \<le> 16"
      using l len k by arith
    from a b c show ?thesis by blast
  qed
  then show ?thesis using len cc by blast
qed

theorem lines_of_16_witness:
  "(1::nat) < length (rows_from 0 (pixel_data red_8x2))
   \<and> 1 + 1 = length (rows_from 0 (pixel_data red_8x2))
   \<and> rows_from 0 (pixel_data red_8x2) ! 1
       = ''  '' @ join '', '' (take 16 (drop (16 * 1) (pixel_data red_8x2))) @ ''\<newline>''
   \<and> length (take 16 (drop (16 * 1) (pixel_data red_8x2))) = 16
   \<and> length (pixel_data red_8x2) = 32"
proof -
  have n: "length (pixel_data red_8x2) = 32"
    by (simp add: length_pixel_data red_8x2_def)
  then have l: "length (rows_from 0 (pixel_data red_8x2)) = 2"
    by (simp add: rows_from_length)
  from lines_of_16 [of red_8x2] l n show ?thesis by simp
qed

section \<open>Properties of the token scan\<close>

lemma is_hex_x [simp]: "\<not> is_hex (CHR ''x'')"
  by (simp add: is_hex_def)

lemma is_hex_0 [simp]: "is_hex (CHR ''0'')"
  by (simp add: is_hex_def)

lemma rmatch_hex_hit:
  "is_hex h1 \<Longrightarrow> is_hex h2 \<Longrightarrow>
   rmatch hex_pattern (CHR ''0'' # CHR ''x'' # h1 # h2 # t) = [(Some [h1, h2], t)]"
  by (simp add: hex_pattern_def)

lemma rmatch_hex_miss: "\<not> occ_at s 0 \<Longrightarrow> rmatch hex_pattern s = []"
proof (cases s)
  case Nil
  then show ?thesis by (simp add: hex_pattern_def)
next
  case s: (Cons a s1)
  assume n: "\<not> occ_at s 0"
  show ?thesis
  proof (cases s1)
    case Nil
    then show ?thesis using s by (simp add: hex_pattern_def)
  next
    case s1: (Cons b s2)
    show ?thesis
    proof (cases s2)
      case Nil
      then show ?thesis using s s1 by (simp add: hex_pattern_def)
    next
      case s2: (Cons c s3)
      show ?thesis
      proof (cases s3)
        case Nil
        then show ?thesis using s s1 s2 by (simp add: hex_pattern_def)
      next
        case (Cons d s4)
        then show ?thesis using s s1 s2 n by (auto simp add: hex_pattern_def occ_at_def)
      qed
    qed
  qed
qed

lemma hex_values_Nil [simp]: "hex_values [] = []"
  by (simp add: hex_values_def findall.simps [of _ "[]"] hex_pattern_def)

lemma hex_values_hit:
  "is_hex h1 \<Longrightarrow> is_hex h2 \<Longrightarrow>
   hex_values (CHR ''0'' # CHR ''x'' # h1 # h2 # t) = [h1, h2] # hex_values t"
  unfolding hex_values_def
  by (subst findall.simps) (simp add: rmatch_hex_hit)

lemma hex_values_miss: "\<not> occ_at (c # s) 0 \<Longrightarrow> hex_values (c # s) = hex_values s"
  unfolding hex_values_def
  by (subst findall.simps) (simp add: rmatch_hex_miss)

lemma hex_values_skip: "c \<noteq> CHR ''0'' \<Longrightarrow> hex_values (c # s) = hex_values s"
  by (rule hex_values_miss) (simp add: occ_at_def)

lemma occ_at_drop: "k \<le> length s \<Longrightarrow> occ_at (drop k s) 0 = occ_at s k"
  by (auto simp add: occ_at_def add.commute)

lemma drop_four:
  assumes "k + 4 \<le> length s"
  shows "drop k s = s ! k # s ! (k + 1) # s ! (k + 2) # s ! (k + 3) # drop (k + 4) s"
proof -
  have "drop k s = s ! k # drop (Suc k) s"
    using assms by (simp add: Cons_nth_drop_Suc)
  also have "drop (Suc k) s = s ! (k + 1) # drop (Suc (Suc k)) s"
    using assms by (simp add: Cons_nth_drop_Suc)
  also have "drop (Suc (Suc k)) s = s ! (k + 2) # drop (Suc (Suc (Suc k))) s"
    using assms by (simp add: Cons_nth_drop_Suc)
  also have "drop (Suc (Suc (Suc k))) s = s ! (k + 3) # drop (k + 4) s"
    using assms Cons_nth_drop_Suc [of "k + 3" s] by (simp add: numeral_eq_Suc)
  finally show ?thesis .
qed

lemma taken_skip: "\<forall>x \<in> set xs. x < lo \<Longrightarrow> taken lo (xs @ ys) = taken lo ys"
  by (induction xs) auto

lemma taken_lower: "\<forall>x \<in> set xs. lo' \<le> x \<Longrightarrow> lo \<le> lo' \<Longrightarrow> taken lo' xs = taken lo xs"
  by (cases xs) auto

lemma filter_upt_split:
  "k + 4 \<le> n \<Longrightarrow> filter P [Suc k..<n] = filter P [Suc k..<k + 4] @ filter P [k + 4..<n]"
proof -
  assume "k + 4 \<le> n"
  then have "[Suc k..<n] = [Suc k..<k + 4] @ [k + 4..<n]"
    using upt_add_eq_append [of "Suc k" "k + 4" "n - (k + 4)"] by simp
  then show ?thesis by simp
qed

lemma scan_drop:
  "hex_values (drop k s)
   = map (\<lambda>i. [s ! (i + 2), s ! (i + 3)]) (taken k (filter (occ_at s) [k..<length s]))"
proof (induction "length s - k" arbitrary: k rule: less_induct)
  case less
  show ?case
  proof (cases "k < length s")
    case False
    then show ?thesis by simp
  next
    case True
    then have upt: "[k..<length s] = k # [Suc k..<length s]"
      by (simp add: upt_conv_Cons)
    show ?thesis
    proof (cases "occ_at s k")
      case hit: True
      then have len: "k + 4 \<le> length s" by (simp add: occ_at_def)
      have d: "drop k s = CHR ''0'' # CHR ''x'' # s ! (k + 2) # s ! (k + 3) # drop (k + 4) s"
        using drop_four [OF len] hit by (simp add: occ_at_def)
      have "hex_values (drop k s) = [s ! (k + 2), s ! (k + 3)] # hex_values (drop (k + 4) s)"
        unfolding d using hit by (intro hex_values_hit) (simp_all add: occ_at_def)
      also have "hex_values (drop (k + 4) s)
          = map (\<lambda>i. [s ! (i + 2), s ! (i + 3)])
                (taken (k + 4) (filter (occ_at s) [k + 4..<length s]))"
        using True by (intro less) simp
      also have "taken (k + 4) (filter (occ_at s) [k + 4..<length s])
          = taken (k + 4) (filter (occ_at s) [Suc k..<length s])"
        using filter_upt_split [OF len, of "occ_at s"] by (simp add: taken_skip)
      finally have "hex_values (drop k s)
          = map (\<lambda>i. [s ! (i + 2), s ! (i + 3)])
                (k # taken (k + 4) (filter (occ_at s) [Suc k..<length s]))"
        by simp
      moreover have "taken k (filter (occ_at s) [k..<length s])
          = k # taken (k + 4) (filter (occ_at s) [Suc k..<length s])"
        unfolding upt using hit by simp
      ultimately show ?thesis by simp
    next
      case miss: False
      have "drop k s = s ! k # drop (Suc k) s"
        using True by (simp add: Cons_nth_drop_Suc)
      moreover have "\<not> occ_at (drop k s) 0"
        using miss True by (simp add: occ_at_drop)
      ultimately have "hex_values (drop k s) = hex_values (drop (Suc k) s)"
        using hex_values_miss [of "s ! k" "drop (Suc k) s"] by simp
      also have "\<dots> = map (\<lambda>i. [s ! (i + 2), s ! (i + 3)])
                (taken (Suc k) (filter (occ_at s) [Suc k..<length s]))"
        using True by (intro less) simp
      also have "taken (Suc k) (filter (occ_at s) [Suc k..<length s])
          = taken k (filter (occ_at s) [Suc k..<length s])"
        by (rule taken_lower) simp_all
      finally have "hex_values (drop k s)
          = map (\<lambda>i. [s ! (i + 2), s ! (i + 3)])
                (taken k (filter (occ_at s) [Suc k..<length s]))" .
      moreover have "filter (occ_at s) [k..<length s] = filter (occ_at s) [Suc k..<length s]"
        unfolding upt using miss by simp
      ultimately show ?thesis by simp
    qed
  qed
qed

lemma hex_values_taken:
  "hex_values s = map (\<lambda>i. [s ! (i + 2), s ! (i + 3)]) (taken 0 (occurrences s))"
  using scan_drop [of 0 s] by (simp add: occurrences_def)

lemma bytes_taken:
  "map int16 (hex_values s) = map (byte_at s) (taken 0 (occurrences s))"
  by (simp add: hex_values_taken byte_at_def comp_def)

lemma taken_0_Nil: "taken 0 xs = [] \<longleftrightarrow> xs = []"
  by (cases xs) auto

lemma hex_values_empty: "hex_values s = [] \<longleftrightarrow> occurrences s = []"
  by (simp add: hex_values_taken taken_0_Nil)

lemma occ_at_near:
  assumes "occ_at s k"
  shows "\<not> occ_at s (k + 1)" "\<not> occ_at s (k + 2)"
proof -
  show "\<not> occ_at s (k + 1)" using assms by (auto simp add: occ_at_def)
  have h: "is_hex (s ! (k + 3))" using assms by (simp add: occ_at_def)
  show "\<not> occ_at s (k + 2)"
  proof
    assume "occ_at s (k + 2)"
    then have "s ! (k + 2 + 1) = CHR ''x''" unfolding occ_at_def by blast
    moreover have "k + 2 + 1 = k + 3" by simp
    ultimately have "s ! (k + 3) = CHR ''x''" by metis
    with h show False using is_hex_x by metis
  qed
qed

lemma taken_all:
  assumes "\<And>i. occ_at s i \<Longrightarrow> \<not> occ_at s (i + 3)"
  shows "lo \<le> k \<Longrightarrow> taken lo (filter (occ_at s) [k..<n]) = filter (occ_at s) [k..<n]"
proof (induction "n - k" arbitrary: k lo rule: less_induct)
  case less
  show ?case
  proof (cases "k < n")
    case False
    then show ?thesis by simp
  next
    case True
    then have upt: "[k..<n] = k # [Suc k..<n]" by (simp add: upt_conv_Cons)
    show ?thesis
    proof (cases "occ_at s k")
      case miss: False
      have "taken lo (filter (occ_at s) [Suc k..<n]) = filter (occ_at s) [Suc k..<n]"
        using True less(2) by (intro less(1)) simp_all
      then show ?thesis unfolding upt using miss by simp
    next
      case hit: True
      have no: "\<not> occ_at s (k + 1)" "\<not> occ_at s (k + 2)" "\<not> occ_at s (k + 3)"
        using occ_at_near [OF hit] assms [OF hit] by simp_all
      have "\<forall>x \<in> set (filter (occ_at s) [Suc k..<n]). k + 4 \<le> x"
      proof
        fix x assume "x \<in> set (filter (occ_at s) [Suc k..<n])"
        then have x: "occ_at s x" "Suc k \<le> x" by simp_all
        have "x \<noteq> k + 1" "x \<noteq> k + 2" "x \<noteq> k + 3" using x(1) no by auto
        then show "k + 4 \<le> x" using x(2) by simp
      qed
      then have "taken (k + 4) (filter (occ_at s) [Suc k..<n])
                 = taken (Suc k) (filter (occ_at s) [Suc k..<n])"
        by (rule taken_lower) simp
      also have "\<dots> = filter (occ_at s) [Suc k..<n]"
        using True by (intro less(1)) simp_all
      finally show ?thesis unfolding upt using hit less(2) by simp
    qed
  qed
qed

lemma parse_text_found:
  "find_array content = Some (Some array_str, rest) \<Longrightarrow>
   parse_text path content =
     (if occurrences array_str = [] then Inl (NoHex path)
      else Inr (map (byte_at array_str) (taken 0 (occurrences array_str))))"
  by (simp add: parse_text_def hex_values_empty bytes_taken)

lemma occ_at_occurrences: "occ_at s i \<longleftrightarrow> i \<in> set (occurrences s)"
  by (auto simp add: occurrences_def occ_at_def)

lemma example_frame1:
  "find_array ''static const uint8_t frame1_map[] = { 0x01, 0x02, 0xff };''
   = Some (Some '' 0x01, 0x02, 0xff '', '';'')"
  by code_simp

lemma example_overlap:
  "find_array ''static const uint8_t a_map[] = {0x10x22};'' = Some (Some ''0x10x22'', '';'')"
  by code_simp

lemma occurrences_frame1: "occurrences '' 0x01, 0x02, 0xff '' = [1, 7, 13]"
  by code_simp

lemma occurrences_overlap: "occurrences ''0x10x22'' = [0, 3]"
  by code_simp

text \<open>
  C6, as amended. When a declaration is found, the output bytes are those of the
  occurrences of the token pattern in the initializer that a scan from left to right
  takes which resumes behind each occurrence taken: an occurrence that starts inside
  one already taken is skipped. The bytes are in the order of the positions. If no
  two occurrences overlap, every occurrence gives one byte. The extraction fails with
  the parse error that names the file exactly if there is no occurrence.
\<close>

theorem scan_takes_occurrences:
  assumes "find_array content = Some (Some array_str, rest)"
  shows "parse_text path content =
           (if occurrences array_str = [] then Inl (NoHex path)
            else Inr (map (byte_at array_str) (taken 0 (occurrences array_str))))
       \<and> ((\<forall>i. occ_at array_str i \<longrightarrow> \<not> occ_at array_str (i + 3))
            \<longrightarrow> taken 0 (occurrences array_str) = occurrences array_str)"
proof -
  have "taken 0 (occurrences array_str) = occurrences array_str"
    if "\<forall>i. occ_at array_str i \<longrightarrow> \<not> occ_at array_str (i + 3)"
    unfolding occurrences_def using that by (intro taken_all) simp_all
  then show ?thesis using parse_text_found [OF assms] by blast
qed

theorem scan_takes_occurrences_witness:
  "find_array ''static const uint8_t frame1_map[] = { 0x01, 0x02, 0xff };''
     = Some (Some '' 0x01, 0x02, 0xff '', '';'')
   \<and> occurrences '' 0x01, 0x02, 0xff '' = [1, 7, 13]
   \<and> taken 0 (occurrences '' 0x01, 0x02, 0xff '') = occurrences '' 0x01, 0x02, 0xff ''
   \<and> parse_text ''frame1.c'' ''static const uint8_t frame1_map[] = { 0x01, 0x02, 0xff };''
       = Inr [0x01, 0x02, 0xff]"
proof -
  have no: "\<forall>i. occ_at '' 0x01, 0x02, 0xff '' i \<longrightarrow> \<not> occ_at '' 0x01, 0x02, 0xff '' (i + 3)"
    by (auto simp add: occ_at_occurrences occurrences_frame1)
  have b: "map (byte_at '' 0x01, 0x02, 0xff '') [1, 7, 13] = [0x01, 0x02, 0xff]"
    by code_simp
  from scan_takes_occurrences [OF example_frame1, of "''frame1.c''"] no b example_frame1
  show ?thesis by (simp add: occurrences_frame1)
qed

theorem every_occurrence_counterexample:
  "find_array ''static const uint8_t a_map[] = {0x10x22};'' = Some (Some ''0x10x22'', '';'')
   \<and> occurrences ''0x10x22'' = [0, 3]
   \<and> map (byte_at ''0x10x22'') (occurrences ''0x10x22'') = [0x10, 0x22]
   \<and> parse_text ''a.c'' ''static const uint8_t a_map[] = {0x10x22};'' = Inr [0x10]
   \<and> parse_text ''a.c'' ''static const uint8_t a_map[] = {0x10x22};''
       \<noteq> Inr (map (byte_at ''0x10x22'') (occurrences ''0x10x22''))"
proof -
  have b: "map (byte_at ''0x10x22'') [0, 3] = [0x10, 0x22]" by code_simp
  have p: "parse_text ''a.c'' ''static const uint8_t a_map[] = {0x10x22};'' = Inr [0x10]"
    using parse_text_found [OF example_overlap, of "''a.c''"] b
    by (simp add: occurrences_overlap)
  from example_overlap occurrences_overlap b p show ?thesis by simp
qed

subsection \<open>Literals of other lengths\<close>












section \<open>Properties of the batch run\<close>

lemma sources_convert [simp]:
  "sources (snd (convert_c_to_bin w f out)) = sources w"
  by (simp add: convert_c_to_bin_def say_def Let_def split: sum.splits)

lemma can_write_convert [simp]:
  "can_write (snd (convert_c_to_bin w f out)) = can_write w"
  by (simp add: convert_c_to_bin_def say_def Let_def split: sum.splits)





lemma batch_step:
  "batch out (f # fs) (n, w) =
     batch out fs (if converts w out f then n + 1 else n, snd (convert_c_to_bin w f out))"
  by (simp add: converts_def split: prod.splits)

lemma batch_sources [simp]: "sources (snd (batch out fs (n, w))) = sources w"
  by (induction fs arbitrary: n w) (simp_all add: batch_step del: batch.simps(2))

lemma batch_can_write [simp]: "can_write (snd (batch out fs (n, w))) = can_write w"
  by (induction fs arbitrary: n w) (simp_all add: batch_step del: batch.simps(2))










section \<open>Properties of the matcher\<close>

lemma seqs_Nil [simp]: "seqs [] = Lit []"
  by (simp add: seqs_def)

lemma seqs_Cons [simp]: "seqs (r # rs) = Seq r (seqs rs)"
  by (simp add: seqs_def)






























lemma parse_text_no_array:
  "parse_text path content = Inl (NoArray path)
   \<longleftrightarrow> search array_pattern1 content = None \<and> search array_pattern2 content = None"
  by (auto simp add: parse_text_def find_array_def split: option.splits)

















section \<open>The encoder's output under the decoder\<close>

subsection \<open>No declaration of the encoder's text qualifies\<close>

lemma cscan_append: "cscan q (a @ b) = cscan (cscan q a) b"
  by (simp add: cscan_def)

lemma cscan_Cons: "cscan q (x # s) = cscan (cstep q x) s"
  by (simp add: cscan_def)

lemma cscan_Nil [simp]: "cscan q [] = q"
  by (simp add: cscan_def)

lemma cscan_3 [simp]: "cscan 3 s = 3"
  by (induction s) (simp_all add: cscan_Cons)

lemma space_not_c: "is_space x \<Longrightarrow> x \<noteq> CHR ''c''"
  by (auto simp add: is_space_def)

lemma cscan_spaces:
  "ws \<noteq> [] \<Longrightarrow> \<forall>x \<in> set ws. is_space x \<Longrightarrow> q = 1 \<or> q = 2 \<Longrightarrow> cscan q ws = 2"
proof (induction ws arbitrary: q)
  case Nil
  then show ?case by simp
next
  case (Cons x ws)
  then have x: "is_space x" "x \<noteq> CHR ''c''" by (simp_all add: space_not_c)
  then have s: "cstep q x = 2" using Cons.prems(3) by auto
  show ?case
  proof (cases "ws = []")
    case True
    then show ?thesis using s by (simp add: cscan_Cons)
  next
    case False
    then have "cscan 2 ws = 2" using Cons by simp
    then show ?thesis using s by (simp add: cscan_Cons)
  qed
qed

lemma cscan_hit:
  assumes "ws \<noteq> []" "\<forall>x \<in> set ws. is_space x"
  shows "cscan q (u @ CHR ''c'' # ws @ CHR ''c'' # v) = 3"
proof (cases "cscan q u = 3")
  case True
  then show ?thesis by (simp add: cscan_append)
next
  case False
  then have "cstep (cscan q u) (CHR ''c'') = 1 \<or> cstep (cscan q u) (CHR ''c'') = 3" by simp
  then show ?thesis
  proof
    assume "cstep (cscan q u) (CHR ''c'') = 1"
    then have "cscan (cstep (cscan q u) (CHR ''c'')) ws = 2"
      using cscan_spaces [OF assms, of 1] by simp
    then show ?thesis by (simp add: cscan_append cscan_Cons)
  next
    assume "cstep (cscan q u) (CHR ''c'') = 3"
    then show ?thesis by (simp add: cscan_append cscan_Cons)
  qed
qed

lemma rmatch_Plus_in:
  assumes "(g, t) \<in> set (rmatch (Plus c) s)"
  shows "\<exists>ws. ws \<noteq> [] \<and> (\<forall>x \<in> set ws. in_cls c x) \<and> s = ws @ t"
proof -
  obtain k where k: "1 \<le> k" "k \<le> length (takeWhile (in_cls c) s)" "t = drop k s"
    using assms by (auto simp del: upt_Suc)
  have "k \<le> length s"
    using k(2) length_takeWhile_le [of "in_cls c" s] by linarith
  then have ne: "take k s \<noteq> []" using k(1) by auto
  have "take k s = take k (takeWhile (in_cls c) s)"
    using k(2) by (metis takeWhile_dropWhile_id append_eq_conv_conj take_append
        diff_is_0_eq take_0 append_Nil2 take_all_iff order_refl)
  then have "set (take k s) \<subseteq> set (takeWhile (in_cls c) s)"
    by (metis set_take_subset)
  then have "\<forall>x \<in> set (take k s). in_cls c x"
    using set_takeWhileD by fastforce
  then show ?thesis using ne k(3) by (intro exI [of _ "take k s"]) simp
qed

lemma rmatch_Lit_in: "(g, t) \<in> set (rmatch (Lit l) s) \<Longrightarrow> s = l @ t"
  by (auto split: if_splits) (metis append_take_drop_id)

lemma rmatch_Seq_nonempty:
  assumes "rmatch (Seq a b) s \<noteq> []"
  shows "\<exists>g t. (g, t) \<in> set (rmatch a s) \<and> rmatch b t \<noteq> []"
  using assms by (auto simp add: concat_eq_Nil_conv split: prod.splits)

lemma static_const_prefix:
  assumes "rmatch (Seq (Lit ''static'') (Seq (Plus Space) (Seq (Lit ''const'') r))) s \<noteq> []"
  shows "\<exists>ws t. ws \<noteq> [] \<and> (\<forall>x \<in> set ws. is_space x) \<and> s = ''static'' @ ws @ ''const'' @ t"
proof -
  from rmatch_Seq_nonempty [OF assms]
  obtain g1 t1 where 1: "(g1, t1) \<in> set (rmatch (Lit ''static'') s)"
      "rmatch (Seq (Plus Space) (Seq (Lit ''const'') r)) t1 \<noteq> []"
    by blast
  from rmatch_Seq_nonempty [OF 1(2)]
  obtain g2 t2 where 2: "(g2, t2) \<in> set (rmatch (Plus Space) t1)"
      "rmatch (Seq (Lit ''const'') r) t2 \<noteq> []"
    by blast
  from rmatch_Seq_nonempty [OF 2(2)]
  obtain g3 t3 where 3: "(g3, t3) \<in> set (rmatch (Lit ''const'') t2)"
    by blast
  have s: "s = ''static'' @ t1"
    using 1(1) by (rule rmatch_Lit_in)
  have t2: "t2 = ''const'' @ t3"
    using 3 by (rule rmatch_Lit_in)
  obtain ws where ws: "ws \<noteq> []" "\<forall>x \<in> set ws. in_cls Space x" "t1 = ws @ t2"
    using rmatch_Plus_in [OF 2(1)] by blast
  show ?thesis using s t2 ws by (intro exI [of _ ws] exI [of _ t3]) simp
qed

lemma search_None_cscan:
  "cscan q s \<noteq> 3 \<Longrightarrow>
   search (Seq (Lit ''static'') (Seq (Plus Space) (Seq (Lit ''const'') r))) s = None"
proof (induction s arbitrary: q)
  case Nil
  then show ?case by simp
next
  case (Cons c s)
  let ?r = "Seq (Lit ''static'') (Seq (Plus Space) (Seq (Lit ''const'') r))"
  have "rmatch ?r (c # s) = []"
  proof (rule ccontr)
    assume "rmatch ?r (c # s) \<noteq> []"
    then obtain ws t where ws: "ws \<noteq> []" "\<forall>x \<in> set ws. is_space x"
        "c # s = ''static'' @ ws @ ''const'' @ t"
      using static_const_prefix by blast
    have "c # s = ''stati'' @ CHR ''c'' # ws @ CHR ''c'' # ''onst'' @ t"
      using ws(3) by simp
    then have "cscan q (c # s) = 3"
      using cscan_hit [OF ws(1,2), of q "''stati''" "''onst'' @ t"] by simp
    then show False using Cons.prems by simp
  qed
  moreover have "search ?r s = None"
    using Cons.prems by (intro Cons.IH [of "cstep q c"]) (simp add: cscan_Cons)
  ultimately show ?case by (simp del: rmatch.simps)
qed

lemma cscan_no_array:
  assumes "cscan 0 content \<noteq> 3"
  shows "parse_text path content = Inl (NoArray path)"
proof -
  have "search array_pattern1 content = None"
    unfolding array_pattern1_def seqs_Cons using assms by (rule search_None_cscan)
  moreover have "search array_pattern2 content = None"
    unfolding array_pattern2_def seqs_Cons using assms by (rule search_None_cscan)
  ultimately show ?thesis by (simp add: parse_text_def find_array_def)
qed

lemma hex_digit_props:
  assumes "d < 16"
  shows "is_hex (hex_digit d)" "\<not> is_space (hex_digit d)" "hex_val (hex_digit d) = int d"
    "hex_digit d \<noteq> CHR ''}''" "hex_digit d \<noteq> CHR ''x''"
proof -
  have "\<forall>d \<in> set [0..<16]. is_hex (hex_digit d) \<and> \<not> is_space (hex_digit d)
          \<and> hex_val (hex_digit d) = int d \<and> hex_digit d \<noteq> CHR ''}''
          \<and> hex_digit d \<noteq> CHR ''x''"
    by code_simp
  moreover have "d \<in> set [0..<16]" using assms by simp
  ultimately show "is_hex (hex_digit d)" "\<not> is_space (hex_digit d)"
    "hex_val (hex_digit d) = int d" "hex_digit d \<noteq> CHR ''}''" "hex_digit d \<noteq> CHR ''x''"
    by blast+
qed

lemma packed_range: "b \<in> set (packed_stream img) \<Longrightarrow> 0 \<le> b \<and> b < 256"
  by (auto simp add: packed_stream_def pixel_bytes_def Let_def and_255_range)

lemma byte_nibbles:
  assumes "0 \<le> b" "b < 256"
  shows "nat b div 16 < 16" "nat b mod 16 < 16" "16 * int (nat b div 16) + int (nat b mod 16) = b"
proof -
  show "nat b div 16 < 16" "nat b mod 16 < 16" using assms by auto
  show "16 * int (nat b div 16) + int (nat b mod 16) = b"
    using assms(1) by (simp add: zdiv_int zmod_int)
qed

lemma str_nat_nospace: "\<forall>c \<in> set (str_nat n). \<not> is_space c"
proof (induction n rule: str_nat.induct)
  case (1 n)
  have "n mod 10 < 16" "n < 10 \<Longrightarrow> n < 16" by simp_all
  then show ?case using 1
    by (subst str_nat.simps) (auto simp add: hex_digit_props(2))
qed

lemma cscan_nospace:
  "\<forall>c \<in> set v. \<not> is_space c \<Longrightarrow> q \<le> 1 \<Longrightarrow> cscan q v \<le> 1"
proof (induction v arbitrary: q)
  case Nil
  then show ?case by simp
next
  case (Cons c v)
  have "cstep q c \<le> 1" using Cons.prems by auto
  then show ?case using Cons by (simp add: cscan_Cons)
qed

lemma cscan_token:
  assumes "0 \<le> b" "b < 256" "q < 3"
  shows "cscan q (token b) \<le> 1"
proof -
  let ?d = "[hex_digit (nat b div 16), hex_digit (nat b mod 16)]"
  have "q = 0 \<or> q = 1 \<or> q = 2" using assms(3) by linarith
  then have z: "cscan q ''0x'' = 0" by (auto simp add: cscan_def is_space_def)
  have "\<forall>c \<in> set ?d. \<not> is_space c"
    using byte_nibbles(1,2) [OF assms(1,2)] by (simp add: hex_digit_props(2))
  then have "cscan 0 ?d \<le> 1" by (rule cscan_nospace) simp
  moreover have "cscan q (''0x'' @ ?d) = cscan (cscan q ''0x'') ?d" by (rule cscan_append)
  moreover have "token b = ''0x'' @ ?d" by (simp add: token_def)
  ultimately show ?thesis using z by (simp only:)
qed

lemma cscan_sep: "q \<le> 1 \<Longrightarrow> cscan q '', '' = 0"
proof -
  assume "q \<le> 1"
  then have "q = 0 \<or> q = 1" by linarith
  then show ?thesis by (auto simp add: cscan_def is_space_def)
qed

lemma cscan_comma_nl: "q \<le> 1 \<Longrightarrow> cscan q '',\<newline>'' = 0"
proof -
  assume "q \<le> 1"
  then have "q = 0 \<or> q = 1" by linarith
  then show ?thesis by (auto simp add: cscan_def is_space_def)
qed

lemma cscan_nl: "q \<le> 1 \<Longrightarrow> cscan q ''\<newline>'' < 3"
proof -
  assume "q \<le> 1"
  then have "q = 0 \<or> q = 1" by linarith
  then show ?thesis by (auto simp add: cscan_def is_space_def)
qed

lemma cscan_indent: "q < 3 \<Longrightarrow> cscan q ''  '' < 3"
proof -
  assume "q < 3"
  then have "q = 0 \<or> q = 1 \<or> q = 2" by linarith
  then show ?thesis by (auto simp add: cscan_def is_space_def)
qed

lemma cscan_join:
  assumes "\<forall>b \<in> set bs. 0 \<le> b \<and> b < 256" "bs \<noteq> []" "q < 3"
  shows "cscan q (join '', '' (map token bs)) \<le> 1"
  using assms
proof (induction bs arbitrary: q)
  case Nil
  then show ?case by simp
next
  case (Cons b bs)
  have t: "cscan q (token b) \<le> 1" using Cons.prems by (intro cscan_token) simp_all
  show ?case
  proof (cases bs)
    case Nil
    then show ?thesis using t by simp
  next
    case (Cons c cs)
    have j: "join '', '' (map token (b # bs))
             = token b @ '', '' @ join '', '' (map token bs)"
      using Cons by simp
    have "cscan (cscan q (token b)) '', '' = 0"
      using t by (rule cscan_sep)
    moreover have "cscan 0 (join '', '' (map token bs)) \<le> 1"
      using Cons.prems Cons by (intro Cons.IH) simp_all
    ultimately show ?thesis unfolding j by (simp only: cscan_append)
  qed
qed

lemma cscan_rows:
  assumes "\<forall>b \<in> set bs. 0 \<le> b \<and> b < 256"
  shows "q < 3 \<Longrightarrow> cscan q (concat (rows_from i (map token bs))) < 3"
proof (induction i "map token bs" arbitrary: q rule: rows_from.induct)
  case (1 i)
  show ?case
  proof (cases "i < length bs")
    case False
    then show ?thesis using 1(2) by (subst rows_from.simps) simp
  next
    case True
    let ?row = "take 16 (drop i bs)"
    let ?end = "if i + 16 < length bs then '',\<newline>'' else ''\<newline>''"
    have r: "rows_from i (map token bs)
             = (''  '' @ join '', '' (map token ?row) @ ?end) # rows_from (i + 16) (map token bs)"
      using True by (subst rows_from.simps) (simp add: take_map drop_map)
    have q1: "cscan q ''  '' < 3"
      using 1(2) by (rule cscan_indent)
    have "\<forall>b \<in> set ?row. 0 \<le> b \<and> b < 256"
      using assms by (meson in_set_dropD in_set_takeD)
    moreover have "?row \<noteq> []" using True by simp
    ultimately have q2: "cscan (cscan q ''  '') (join '', '' (map token ?row)) \<le> 1"
      using q1 by (intro cscan_join)
    have q3: "cscan (cscan (cscan q ''  '') (join '', '' (map token ?row))) ?end < 3"
      using cscan_comma_nl [OF q2] cscan_nl [OF q2] by (cases "i + 16 < length bs") simp_all
    have "cscan (cscan (cscan (cscan q ''  '') (join '', '' (map token ?row))) ?end)
            (concat (rows_from (i + 16) (map token bs))) < 3"
      using True q3 by (intro 1(1)) simp_all
    then show ?thesis unfolding r by (simp only: concat.simps cscan_append)
  qed
qed

lemma fixed_piece:
  assumes "cscan 0 a = 0" "cscan 1 a = 0" "cscan 2 a = 0" "q < 3"
  shows "cscan q a = 0"
proof -
  have "q = 0 \<or> q = 1 \<or> q = 2" using assms(4) by linarith
  then show ?thesis using assms(1-3) by auto
qed

lemma text_pieces:
  \<open>convert_png_to_c img v =
     (''#include "lvgl.h"\<newline>\<newline>#ifndef LV_ATTRIBUTE_MEM_ALIGN\<newline>''
        @ ''#define LV_ATTRIBUTE_MEM_ALIGN\<newline>#endif\<newline>\<newline>''
        @ ''const LV_ATTRIBUTE_MEM_ALIGN uint8_t '')
     @ v @ ''_map[] = {\<newline>''
     @ concat (rows_from 0 (pixel_data img)) @ ''};\<newline>\<newline>const lv_img_dsc_t ''
     @ v @ '' = {\<newline>  .header.always_zero = 0,\<newline>  .header.w = ''
     @ str_nat (width img) @ '',\<newline>  .header.h = ''
     @ str_nat (height img) @ '',\<newline>  .data_size = ''
     @ str_nat (length (pixel_data img))
     @ '',\<newline>  .header.cf = LV_IMG_CF_TRUE_COLOR,\<newline>  .data = ''
     @ v @ ''_map,\<newline>};\<newline>'' @ []\<close>
  by (simp add: convert_png_to_c_def preamble_def descriptor_def)

lemma pass:
  assumes "cscan 0 v < 3" "cscan 0 a = 0" "cscan 1 a = 0" "cscan 2 a = 0"
  shows "cscan 0 (v @ a @ x) = cscan 0 x"
proof -
  have "cscan (cscan 0 v) a = 0"
    using assms(2-4) assms(1) by (rule fixed_piece)
  then show ?thesis by (simp only: cscan_append)
qed

lemma pass_nospace:
  assumes "\<forall>c \<in> set v. \<not> is_space c" "cscan 0 a = 0" "cscan 1 a = 0" "cscan 2 a = 0"
  shows "cscan 0 (v @ a @ x) = cscan 0 x"
proof -
  have "cscan 0 v \<le> 1" using assms(1) by (rule cscan_nospace) simp
  then have "cscan 0 v < 3" by simp
  then show ?thesis using assms(2-4) by (rule pass)
qed

lemma encoder_text_cscan:
  assumes "\<forall>c \<in> set v. \<not> is_space c"
  shows "cscan 0 (convert_png_to_c img v) = 0"
proof -
  have e0: \<open>cscan 0 ((''#include "lvgl.h"\<newline>\<newline>#ifndef LV_ATTRIBUTE_MEM_ALIGN\<newline>''
        @ ''#define LV_ATTRIBUTE_MEM_ALIGN\<newline>#endif\<newline>\<newline>''
        @ ''const LV_ATTRIBUTE_MEM_ALIGN uint8_t '') @ x) = cscan 0 x\<close> for x
  proof -
    have \<open>cscan 0 (''#include "lvgl.h"\<newline>\<newline>#ifndef LV_ATTRIBUTE_MEM_ALIGN\<newline>''
        @ ''#define LV_ATTRIBUTE_MEM_ALIGN\<newline>#endif\<newline>\<newline>''
        @ ''const LV_ATTRIBUTE_MEM_ALIGN uint8_t '') = 0\<close>
      by (simp add: cscan_def is_space_def)
    then show ?thesis by (simp only: cscan_append)
  qed
  have e1: "cscan 0 (v @ ''_map[] = {\<newline>'' @ x) = cscan 0 x" for x
    using assms by (rule pass_nospace) (simp_all add: cscan_def is_space_def)
  have "cscan 0 (concat (rows_from 0 (map token (packed_stream img)))) < 3"
    using packed_range by (intro cscan_rows) simp_all
  then have r: "cscan 0 (concat (rows_from 0 (pixel_data img))) < 3"
    by (simp only: pixel_data_stream)
  have e2: "cscan 0 (concat (rows_from 0 (pixel_data img))
              @ ''};\<newline>\<newline>const lv_img_dsc_t '' @ x) = cscan 0 x" for x
    using r by (rule pass) (simp_all add: cscan_def is_space_def)
  have e3: "cscan 0 (v @ '' = {\<newline>  .header.always_zero = 0,\<newline>  .header.w = '' @ x)
            = cscan 0 x" for x
    using assms by (rule pass_nospace) (simp_all add: cscan_def is_space_def)
  have e4: "cscan 0 (str_nat n @ '',\<newline>  .header.h = '' @ x) = cscan 0 x" for n x
    using str_nat_nospace by (rule pass_nospace) (simp_all add: cscan_def is_space_def)
  have e5: "cscan 0 (str_nat n @ '',\<newline>  .data_size = '' @ x) = cscan 0 x" for n x
    using str_nat_nospace by (rule pass_nospace) (simp_all add: cscan_def is_space_def)
  have e6: "cscan 0 (str_nat n
              @ '',\<newline>  .header.cf = LV_IMG_CF_TRUE_COLOR,\<newline>  .data = '' @ x)
            = cscan 0 x" for n x
    using str_nat_nospace by (rule pass_nospace) (simp_all add: cscan_def is_space_def)
  have e7: "cscan 0 (v @ ''_map,\<newline>};\<newline>'' @ x) = cscan 0 x" for x
    using assms by (rule pass_nospace) (simp_all add: cscan_def is_space_def)
  show ?thesis
    by (simp only: text_pieces e0 e1 e2 e3 e4 e5 e6 e7 cscan_Nil)
qed

subsection \<open>The tokens of the initializer\<close>

lemma hv_token:
  assumes "0 \<le> b" "b < 256"
  shows "map int16 (hex_values (token b @ rest)) = b # map int16 (hex_values rest)"
proof -
  let ?h = "hex_digit (nat b div 16)" and ?l = "hex_digit (nat b mod 16)"
  have h: "is_hex ?h" "is_hex ?l"
    using byte_nibbles(1,2) [OF assms] by (simp_all add: hex_digit_props(1))
  have "int16 [?h, ?l] = 16 * int (nat b div 16) + int (nat b mod 16)"
    using byte_nibbles(1,2) [OF assms] by (simp add: int16_def hex_digit_props(3))
  then have i: "int16 [?h, ?l] = b"
    using byte_nibbles(3) [OF assms] by simp
  have "token b @ rest = CHR ''0'' # CHR ''x'' # ?h # ?l # rest"
    by (simp add: token_def)
  then show ?thesis using hex_values_hit [OF h] i by simp
qed

lemma hv_join:
  assumes "\<forall>b \<in> set bs. 0 \<le> b \<and> b < 256"
  shows "map int16 (hex_values (join '', '' (map token bs) @ rest))
         = bs @ map int16 (hex_values rest)"
  using assms
proof (induction bs)
  case Nil
  then show ?case by simp
next
  case (Cons b bs)
  have b: "0 \<le> b" "b < 256" using Cons.prems by simp_all
  show ?case
  proof (cases bs)
    case Nil
    then show ?thesis using hv_token [OF b] by simp
  next
    case (Cons c cs)
    have "join '', '' (map token (b # bs)) @ rest
          = token b @ CHR '','' # CHR '' '' # join '', '' (map token bs) @ rest"
      using Cons by simp
    moreover have "hex_values (CHR '','' # CHR '' '' # join '', '' (map token bs) @ rest)
          = hex_values (join '', '' (map token bs) @ rest)"
      by (simp add: hex_values_skip)
    ultimately show ?thesis
      using hv_token [OF b] Cons.IH Cons.prems by simp
  qed
qed

lemma hv_rows:
  assumes "\<forall>b \<in> set bs. 0 \<le> b \<and> b < 256"
  shows "map int16 (hex_values (concat (rows_from i (map token bs)) @ rest))
         = drop i bs @ map int16 (hex_values rest)"
proof (induction i "map token bs" rule: rows_from.induct)
  case (1 i)
  show ?case
  proof (cases "i < length bs")
    case False
    then show ?thesis by (subst rows_from.simps) simp
  next
    case True
    let ?row = "take 16 (drop i bs)"
    let ?end = "if i + 16 < length bs then '',\<newline>'' else ''\<newline>''"
    let ?more = "concat (rows_from (i + 16) (map token bs)) @ rest"
    have r: "concat (rows_from i (map token bs)) @ rest
             = CHR '' '' # CHR '' '' # join '', '' (map token ?row) @ ?end @ ?more"
      using True by (subst rows_from.simps) (simp add: take_map drop_map)
    have row: "\<forall>b \<in> set ?row. 0 \<le> b \<and> b < 256"
      using assms by (meson in_set_dropD in_set_takeD)
    have e: "hex_values (?end @ ?more) = hex_values ?more"
      by (simp add: hex_values_skip)
    have ih: "map int16 (hex_values ?more) = drop (i + 16) bs @ map int16 (hex_values rest)"
      using True by (intro 1) simp
    have "map int16 (hex_values (concat (rows_from i (map token bs)) @ rest))
          = map int16 (hex_values (join '', '' (map token ?row) @ ?end @ ?more))"
      unfolding r by (simp add: hex_values_skip)
    also have "\<dots> = ?row @ map int16 (hex_values (?end @ ?more))"
      using row by (rule hv_join)
    also have "\<dots> = ?row @ drop (i + 16) bs @ map int16 (hex_values rest)"
      unfolding e ih ..
    finally have "map int16 (hex_values (concat (rows_from i (map token bs)) @ rest))
          = (?row @ drop (i + 16) bs) @ map int16 (hex_values rest)"
      by simp
    moreover have "?row @ drop (i + 16) bs = drop i bs"
      using append_take_drop_id [of 16 "drop i bs"] by (simp add: add.commute)
    ultimately show ?thesis by (simp only:)
  qed
qed

lemma initializer_stream:
  "map int16 (hex_values (''\<newline>'' @ concat (rows_from 0 (pixel_data img))))
   = packed_stream img"
proof -
  have "map int16 (hex_values (concat (rows_from 0 (map token (packed_stream img))) @ []))
        = drop 0 (packed_stream img) @ map int16 (hex_values [])"
    using packed_range by (intro hv_rows) simp_all
  then show ?thesis by (simp add: pixel_data_stream hex_values_skip)
qed

subsection \<open>The initializer holds no closing brace\<close>

lemma join_chars:
  "c \<in> set (join sep xs) \<Longrightarrow> c \<in> set sep \<or> (\<exists>t \<in> set xs. c \<in> set t)"
  by (induction sep xs rule: join.induct) auto

lemma rows_chars:
  "c \<in> set (concat (rows_from i pd)) \<Longrightarrow>
   c \<in> set '' ,\<newline>'' \<or> (\<exists>t \<in> set pd. c \<in> set t)"
proof (induction i pd rule: rows_from.induct)
  case (1 i pd)
  show ?case
  proof (cases "i < length pd")
    case False
    then show ?thesis using 1(2) by (subst (asm) rows_from.simps) simp
  next
    case True
    let ?row = "''  '' @ join '', '' (take 16 (drop i pd))
                  @ (if i + 16 < length pd then '',\<newline>'' else ''\<newline>'')"
    have "concat (rows_from i pd) = ?row @ concat (rows_from (i + 16) pd)"
      using True by (subst rows_from.simps) simp
    then have "c \<in> set ?row \<or> c \<in> set (concat (rows_from (i + 16) pd))"
      using 1(2) by (simp only: set_append Un_iff)
    then show ?thesis
    proof
      assume "c \<in> set ?row"
      then have "c \<in> set '' ,\<newline>'' \<or> c \<in> set (join '', '' (take 16 (drop i pd)))"
        by (auto split: if_splits)
      then have "c \<in> set '' ,\<newline>'' \<or> (\<exists>t \<in> set (take 16 (drop i pd)). c \<in> set t)"
        using join_chars [of c "'', ''" "take 16 (drop i pd)"] by auto
      then show ?thesis
        by (meson in_set_dropD in_set_takeD)
    next
      assume "c \<in> set (concat (rows_from (i + 16) pd))"
      then show ?thesis using True by (rule 1(1) [rotated])
    qed
  qed
qed

lemma token_no_brace:
  assumes "0 \<le> b" "b < 256"
  shows "CHR ''}'' \<notin> set (token b)"
  using hex_digit_props(4) [OF byte_nibbles(1) [OF assms]]
    hex_digit_props(4) [OF byte_nibbles(2) [OF assms]]
  by (auto simp add: token_def)

lemma initializer_no_brace:
  "CHR ''}'' \<notin> set (''\<newline>'' @ concat (rows_from 0 (pixel_data img)))"
proof
  assume "CHR ''}'' \<in> set (''\<newline>'' @ concat (rows_from 0 (pixel_data img)))"
  then have "CHR ''}'' \<in> set (concat (rows_from 0 (pixel_data img)))"
    by simp
  then have "CHR ''}'' \<in> set '' ,\<newline>'' \<or> (\<exists>t \<in> set (pixel_data img). CHR ''}'' \<in> set t)"
    by (rule rows_chars)
  then obtain b where "b \<in> set (packed_stream img)" "CHR ''}'' \<in> set (token b)"
    by (auto simp add: pixel_data_stream)
  then show False
    using packed_range [of b img] token_no_brace [of b] by blast
qed

lemma text_parts:
  \<open>convert_png_to_c img v =
     (''#include "lvgl.h"\<newline>\<newline>#ifndef LV_ATTRIBUTE_MEM_ALIGN\<newline>''
        @ ''#define LV_ATTRIBUTE_MEM_ALIGN\<newline>#endif\<newline>\<newline>'')
     @ ''const LV_ATTRIBUTE_MEM_ALIGN uint8_t '' @ v @ ''_map[] = {''
     @ (''\<newline>'' @ concat (rows_from 0 (pixel_data img)))
     @ ''};\<newline>\<newline>'' @ concat (descriptor img v)\<close>
  by (simp add: convert_png_to_c_def preamble_def)

lemma encoder_text_no_array:
  assumes "\<forall>c \<in> set v. \<not> is_space c"
  shows "search array_pattern1 (convert_png_to_c img v) = None"
    "search array_pattern2 (convert_png_to_c img v) = None"
    "parse_text path (convert_png_to_c img v) = Inl (NoArray path)"
proof -
  have "cscan 0 (convert_png_to_c img v) = 0"
    using assms by (rule encoder_text_cscan)
  then have "cscan 0 (convert_png_to_c img v) \<noteq> 3"
    by simp
  then show "parse_text path (convert_png_to_c img v) = Inl (NoArray path)"
    by (rule cscan_no_array)
  then show "search array_pattern1 (convert_png_to_c img v) = None"
    "search array_pattern2 (convert_png_to_c img v) = None"
    by (simp_all only: parse_text_no_array)
qed

text \<open>
  C1, as amended. For every image and every variable name without whitespace, the
  text written by the encoder holds no declaration that qualifies under the
  extractor's patterns: the encoder declares its array \<open>const\<close> without the
  \<open>static\<close> that both patterns require, so neither pattern matches anywhere in the
  text and the extraction of the text fails with the error that names the file.
  The text is the preamble, the declaration up to its opening brace, the
  initializer, and the closing brace with the descriptor behind it. The initializer
  holds no closing brace, and scanning it for hexadecimal tokens, as the extractor
  scans the initializer of a declaration it has matched, gives the packed pixel
  stream of the encoder: the little-endian RGB565 bytes in row-major pixel order,
  two for each pixel.
\<close>

theorem encoder_text_not_extracted:
  assumes "\<forall>c \<in> set var_name. \<not> is_space c"
  shows
    \<open>search array_pattern1 (convert_png_to_c img var_name) = None
     \<and> search array_pattern2 (convert_png_to_c img var_name) = None
     \<and> parse_text path (convert_png_to_c img var_name) = Inl (NoArray path)
     \<and> convert_png_to_c img var_name =
         (''#include "lvgl.h"\<newline>\<newline>#ifndef LV_ATTRIBUTE_MEM_ALIGN\<newline>''
            @ ''#define LV_ATTRIBUTE_MEM_ALIGN\<newline>#endif\<newline>\<newline>'')
         @ ''const LV_ATTRIBUTE_MEM_ALIGN uint8_t '' @ var_name @ ''_map[] = {''
         @ (''\<newline>'' @ concat (rows_from 0 (pixel_data img)))
         @ ''};\<newline>\<newline>'' @ concat (descriptor img var_name)
     \<and> CHR ''}'' \<notin> set (''\<newline>'' @ concat (rows_from 0 (pixel_data img)))
     \<and> map int16 (hex_values (''\<newline>'' @ concat (rows_from 0 (pixel_data img))))
         = packed_stream img
     \<and> packed_stream img
         = concat (map (\<lambda>i. pixel_bytes (getpixel img (i mod width img, i div width img)))
                       [0..<height img * width img])
     \<and> length (packed_stream img) = 2 * width img * height img\<close>
proof -
  note encoder_text_no_array [OF assms]
  moreover have "packed_stream img
         = concat (map (\<lambda>i. pixel_bytes (getpixel img (i mod width img, i div width img)))
                       [0..<height img * width img])"
    unfolding packed_stream_def by (rule row_major)
  ultimately show ?thesis
    using text_parts [of img var_name] initializer_no_brace [of img]
      initializer_stream [of img] length_packed_stream [of img]
    by (intro conjI)
qed

lemma stream_red_green: "packed_stream red_green = [0x00, 0xf8, 0xe0, 0x07]"
  by code_simp

theorem encoder_text_not_extracted_witness:
  "search array_pattern1 (convert_png_to_c red_green ''anim_frame_0'') = None
   \<and> parse_text ''anim_frame_0.c'' (convert_png_to_c red_green ''anim_frame_0'')
       = Inl (NoArray ''anim_frame_0.c'')
   \<and> map int16 (hex_values (''\<newline>'' @ concat (rows_from 0 (pixel_data red_green))))
       = [0x00, 0xf8, 0xe0, 0x07]"
proof -
  have "\<forall>c \<in> set ''anim_frame_0''. \<not> is_space c"
    by (simp add: is_space_def)
  note th = encoder_text_not_extracted [OF this, where img = red_green
      and path = "''anim_frame_0.c''"]
  have "search array_pattern1 (convert_png_to_c red_green ''anim_frame_0'') = None"
    using th by (rule conjunct1)
  moreover have "parse_text ''anim_frame_0.c'' (convert_png_to_c red_green ''anim_frame_0'')
       = Inl (NoArray ''anim_frame_0.c'')"
    using th [THEN conjunct2, THEN conjunct2] by (rule conjunct1)
  moreover have "map int16 (hex_values (''\<newline>'' @ concat (rows_from 0 (pixel_data red_green))))
       = packed_stream red_green"
    using th [THEN conjunct2, THEN conjunct2, THEN conjunct2, THEN conjunct2, THEN conjunct2]
    by (rule conjunct1)
  ultimately show ?thesis
    unfolding stream_red_green by (intro conjI)
qed

text \<open>
  The claim as it stands fails on the image of one red and one green pixel: the
  encoder's text for it is not extracted, and its packed pixel stream has four bytes.
\<close>

theorem round_trip_counterexample:
  \<open>convert_png_to_c red_green ''anim_frame_0'' =
     ''#include "lvgl.h"\<newline>\<newline>#ifndef LV_ATTRIBUTE_MEM_ALIGN\<newline>''
     @ ''#define LV_ATTRIBUTE_MEM_ALIGN\<newline>#endif\<newline>\<newline>''
     @ ''const LV_ATTRIBUTE_MEM_ALIGN uint8_t anim_frame_0_map[] = {\<newline>''
     @ ''  0x00, 0xf8, 0xe0, 0x07\<newline>''
     @ ''};\<newline>\<newline>''
     @ ''const lv_img_dsc_t anim_frame_0 = {\<newline>''
     @ ''  .header.always_zero = 0,\<newline>''
     @ ''  .header.w = 2,\<newline>''
     @ ''  .header.h = 1,\<newline>''
     @ ''  .data_size = 4,\<newline>''
     @ ''  .header.cf = LV_IMG_CF_TRUE_COLOR,\<newline>''
     @ ''  .data = anim_frame_0_map,\<newline>''
     @ ''};\<newline>''
   \<and> parse_text ''anim_frame_0.c'' (convert_png_to_c red_green ''anim_frame_0'')
       = Inl (NoArray ''anim_frame_0.c'')
   \<and> packed_stream red_green = [0x00, 0xf8, 0xe0, 0x07]\<close>
proof -
  have t: \<open>convert_png_to_c red_green ''anim_frame_0'' =
     ''#include "lvgl.h"\<newline>\<newline>#ifndef LV_ATTRIBUTE_MEM_ALIGN\<newline>''
     @ ''#define LV_ATTRIBUTE_MEM_ALIGN\<newline>#endif\<newline>\<newline>''
     @ ''const LV_ATTRIBUTE_MEM_ALIGN uint8_t anim_frame_0_map[] = {\<newline>''
     @ ''  0x00, 0xf8, 0xe0, 0x07\<newline>''
     @ ''};\<newline>\<newline>''
     @ ''const lv_img_dsc_t anim_frame_0 = {\<newline>''
     @ ''  .header.always_zero = 0,\<newline>''
     @ ''  .header.w = 2,\<newline>''
     @ ''  .header.h = 1,\<newline>''
     @ ''  .data_size = 4,\<newline>''
     @ ''  .header.cf = LV_IMG_CF_TRUE_COLOR,\<newline>''
     @ ''  .data = anim_frame_0_map,\<newline>''
     @ ''};\<newline>''\<close>
    by code_simp
  have "\<forall>c \<in> set ''anim_frame_0''. \<not> is_space c"
    by (simp add: is_space_def)
  then have "parse_text ''anim_frame_0.c'' (convert_png_to_c red_green ''anim_frame_0'')
       = Inl (NoArray ''anim_frame_0.c'')"
    by (rule encoder_text_no_array)
  with t stream_red_green show ?thesis by (intro conjI)
qed

end
